theory Spec2Isabelle
  imports Main "HOL-Library.Word" "HOL-Library.Monad_Syntax"
begin

section \<open>The AVL tree of avl.c as HOL functions\<close>

text \<open>
  The C module keeps a binary tree of heap nodes (\<^verbatim>\<open>struct BSTNode\<close>) behind a handle
  (\<^verbatim>\<open>struct AVLTree\<close>). Every node is reached through exactly one child pointer, so the
  heap graph is a tree, and a node pointer is modelled by the subtree it points to; the
  null pointer is \<open>NullNode\<close>. Keys are C \<^verbatim>\<open>int\<close>s, compared as signed 32-bit values and
  never computed with. A value is an opaque \<^verbatim>\<open>void *\<close>. The height field is a C
  \<^verbatim>\<open>int\<close> as well; it only ever holds \<open>1 + max\<close> of two smaller heights, and is modelled
  by an unbounded integer.

  Dereferencing a null pointer is undefined behaviour in C. Each function that
  dereferences returns an \<open>option\<close>, with \<open>None\<close> for "a null pointer was dereferenced".
  \<^verbatim>\<open>insert_node\<close> writes the new node through the result of \<^verbatim>\<open>malloc\<close> without
  testing it. Whether \<^verbatim>\<open>malloc\<close> returned memory is an input of the model, as it is for
  \<^verbatim>\<open>createAVLTree\<close>, and the write through a null result is \<open>None\<close> like every other
  null dereference.
\<close>

type_synonym c_int = "32 word"

datatype void_ptr = NULL | Ptr nat

text \<open>Fields of \<^verbatim>\<open>struct BSTNode\<close> in declaration order: key, value, height, left, right.\<close>

datatype BSTNode = NullNode | Node c_int void_ptr int BSTNode BSTNode

record AVLTree =
  root :: BSTNode

text \<open>The macro \<^verbatim>\<open>MAX(a, b) ((a) > (b) ? (a) : (b))\<close>.\<close>

definition MAX_of :: "int \<Rightarrow> int \<Rightarrow> int" where
  "MAX_of a b = (if a > b then a else b)"

text \<open>\<^verbatim>\<open>createAVLTree\<close>; the argument says whether \<^verbatim>\<open>malloc\<close> returned memory.\<close>

definition createAVLTree :: "bool \<Rightarrow> AVLTree option" where
  "createAVLTree malloc_ok = (if malloc_ok then Some \<lparr>root = NullNode\<rparr> else None)"

fun height :: "BSTNode \<Rightarrow> int" where
  "height NullNode = 0"
| "height (Node k v h l r) = h"

fun rotateRight :: "BSTNode \<Rightarrow> BSTNode option" where
  "rotateRight (Node k v h (Node lk lv lh ll lr) r) =
     (let node = Node k v (1 + MAX_of (height lr) (height r)) lr r
      in Some (Node lk lv (1 + MAX_of (height ll) (height node)) ll node))"
| "rotateRight _ = None"

fun rotateLeft :: "BSTNode \<Rightarrow> BSTNode option" where
  "rotateLeft (Node k v h l (Node rk rv rh rl rr)) =
     (let node = Node k v (1 + MAX_of (height l) (height rl)) l rl
      in Some (Node rk rv (1 + MAX_of (height node) (height rr)) node rr))"
| "rotateLeft _ = None"

text \<open>The read \<^verbatim>\<open>p->key\<close> of a node pointer \<open>p\<close>.\<close>

fun key_of :: "BSTNode \<Rightarrow> c_int option" where
  "key_of NullNode = None"
| "key_of (Node k v h l r) = Some k"

text \<open>
  The short-circuit conjunction \<^verbatim>\<open>a && b\<close> where evaluating \<open>b\<close> may dereference:
  \<open>b\<close> is evaluated only when \<open>a\<close> holds.
\<close>

definition c_and :: "bool \<Rightarrow> bool option \<Rightarrow> bool option" where
  "c_and a b = (if a then b else Some False)"

text \<open>
  Lines 119 to 148 of \<^verbatim>\<open>insert_node\<close>: the height update of \<open>root\<close> and the four
  rebalancing tests, in the order of the source.
\<close>

fun insert_rebalance :: "c_int \<Rightarrow> BSTNode \<Rightarrow> BSTNode option" where
  "insert_rebalance key NullNode = None"
| "insert_rebalance key (Node rk rv rh l r) =
     (let root = Node rk rv (1 + MAX_of (height l) (height r)) l r;
          balance = height r - height l
      in do {
        left_left \<leftarrow> c_and (balance < -1) (map_option (\<lambda>lk. key <s lk) (key_of l));
        if left_left then rotateRight root
        else do {
          right_right \<leftarrow> c_and (balance > 1) (map_option (\<lambda>k'. k' <s key) (key_of r));
          if right_right then rotateLeft root
          else do {
            left_right \<leftarrow> c_and (balance < -1) (map_option (\<lambda>lk. lk <s key) (key_of l));
            if left_right then do {
              l' \<leftarrow> rotateLeft l;
              rotateRight (Node rk rv (1 + MAX_of (height l) (height r)) l' r)
            }
            else do {
              right_left \<leftarrow> c_and (balance > 1) (map_option (\<lambda>k'. key <s k') (key_of r));
              if right_left then do {
                r' \<leftarrow> rotateRight r;
                rotateLeft (Node rk rv (1 + MAX_of (height l) (height r)) l r')
              }
              else Some root
            }
          }
        }
      })"

text \<open>
  \<^verbatim>\<open>insert_node\<close>; the first argument says whether the \<^verbatim>\<open>malloc\<close> of line 102 returned
  memory. At most one allocation happens in a call, at the null position where the
  descent ends; with a null result the assignment \<^verbatim>\<open>*node = ...\<close> of line 105
  dereferences a null pointer.
\<close>

fun insert_node :: "bool \<Rightarrow> c_int \<Rightarrow> void_ptr \<Rightarrow> BSTNode \<Rightarrow> BSTNode option" where
  "insert_node malloc_ok key val NullNode =
     (if malloc_ok then Some (Node key val 1 NullNode NullNode) else None)"
| "insert_node malloc_ok key val (Node rk rv rh l r) =
     (if rk <s key then
        do { r' \<leftarrow> insert_node malloc_ok key val r; insert_rebalance key (Node rk rv rh l r') }
      else if key <s rk then
        do { l' \<leftarrow> insert_node malloc_ok key val l; insert_rebalance key (Node rk rv rh l' r) }
      else insert_rebalance key (Node rk val rh l r))"

text \<open>
  \<^verbatim>\<open>insert_avl\<close> returns the boolean result together with the handle, whose tree it has
  updated in place. The first argument is passed on to \<^verbatim>\<open>insert_node\<close>.
\<close>

definition insert_avl ::
  "bool \<Rightarrow> c_int \<Rightarrow> void_ptr \<Rightarrow> AVLTree option \<Rightarrow> (bool \<times> AVLTree option) option" where
  "insert_avl malloc_ok key val tree =
     (case tree of
        Some t \<Rightarrow>
          do { r \<leftarrow> insert_node malloc_ok key val (root t); Some (True, Some (t\<lparr>root := r\<rparr>)) }
      | None \<Rightarrow> Some (False, None))"

text \<open>\<^verbatim>\<open>delete_avl\<close> is \<^verbatim>\<open>return NULL; //TODO\<close>: it reads and writes nothing.\<close>

definition delete_avl :: "c_int \<Rightarrow> AVLTree option \<Rightarrow> void_ptr \<times> AVLTree option" where
  "delete_avl key tree = (NULL, tree)"

fun lookup :: "c_int \<Rightarrow> BSTNode \<Rightarrow> void_ptr" where
  "lookup key NullNode = NULL"
| "lookup key (Node k v h l r) =
     (if k = key then v
      else if key <s k then lookup key l
      else lookup key r)"

definition lookup_avl :: "c_int \<Rightarrow> AVLTree option \<Rightarrow> void_ptr" where
  "lookup_avl key tree = (case tree of None \<Rightarrow> NULL | Some t \<Rightarrow> lookup key (root t))"

section \<open>Sequences of public operations\<close>

text \<open>
  A client holds a handle and calls \<^verbatim>\<open>insert_avl\<close>, \<^verbatim>\<open>delete_avl\<close> and \<^verbatim>\<open>lookup_avl\<close> on
  it in any order. An \<open>Insert\<close> carries, with the key and the value, whether \<^verbatim>\<open>malloc\<close>
  returns memory during that call. \<open>run\<close> performs such a sequence and returns the handle
  afterwards, or \<open>None\<close> when a call dereferenced a null pointer.
\<close>

datatype operation = Insert bool c_int void_ptr | Delete c_int | Lookup c_int

fun apply_op :: "operation \<Rightarrow> AVLTree option \<Rightarrow> AVLTree option option" where
  "apply_op (Insert malloc_ok key val) tree = map_option snd (insert_avl malloc_ok key val tree)"
| "apply_op (Delete key) tree = Some (snd (delete_avl key tree))"
| "apply_op (Lookup key) tree = Some tree"

fun run :: "operation list \<Rightarrow> AVLTree option \<Rightarrow> AVLTree option option" where
  "run [] tree = Some tree"
| "run (x # xs) tree = apply_op x tree \<bind> run xs"

text \<open>The operations during which every allocation succeeds.\<close>

fun malloc_succeeds :: "operation \<Rightarrow> bool" where
  "malloc_succeeds (Insert malloc_ok key val) = malloc_ok"
| "malloc_succeeds (Delete key) = True"
| "malloc_succeeds (Lookup key) = True"

section \<open>Specification vocabulary\<close>

text \<open>The keys stored in a tree, their in-order sequence, and the number of nodes.\<close>

fun keys :: "BSTNode \<Rightarrow> c_int set" where
  "keys NullNode = {}"
| "keys (Node k v h l r) = keys l \<union> {k} \<union> keys r"

fun inorder_keys :: "BSTNode \<Rightarrow> c_int list" where
  "inorder_keys NullNode = []"
| "inorder_keys (Node k v h l r) = inorder_keys l @ k # inorder_keys r"

fun node_count :: "BSTNode \<Rightarrow> nat" where
  "node_count NullNode = 0"
| "node_count (Node k v h l r) = node_count l + 1 + node_count r"

text \<open>
  The height of a subtree as a property of its shape: the number of nodes on the longest
  path from its root down, 0 for the empty subtree. It does not read the height fields.
\<close>

fun ht :: "BSTNode \<Rightarrow> int" where
  "ht NullNode = 0"
| "ht (Node k v h l r) = 1 + max (ht l) (ht r)"

text \<open>The search-tree ordering, with the signed order of C on the keys.\<close>

fun bst :: "BSTNode \<Rightarrow> bool" where
  "bst NullNode = True"
| "bst (Node k v h l r) =
     ((\<forall>x \<in> keys l. x <s k) \<and> (\<forall>x \<in> keys r. k <s x) \<and> bst l \<and> bst r)"

text \<open>
  Height consistency: every height field is one more than the larger of what the C
  function \<^verbatim>\<open>height\<close> returns for the two children.
\<close>

fun heights_ok :: "BSTNode \<Rightarrow> bool" where
  "heights_ok NullNode = True"
| "heights_ok (Node k v h l r) =
     (h = 1 + max (height l) (height r) \<and> heights_ok l \<and> heights_ok r)"

text \<open>The AVL balance condition at every node.\<close>

fun balanced :: "BSTNode \<Rightarrow> bool" where
  "balanced NullNode = True"
| "balanced (Node k v h l r) = (\<bar>ht l - ht r\<bar> \<le> 1 \<and> balanced l \<and> balanced r)"

text \<open>The same condition read off the height fields, as the C function \<^verbatim>\<open>height\<close> sees it.\<close>

fun balanced_fields :: "BSTNode \<Rightarrow> bool" where
  "balanced_fields NullNode = True"
| "balanced_fields (Node k v h l r) =
     (\<bar>height l - height r\<bar> \<le> 1 \<and> balanced_fields l \<and> balanced_fields r)"

definition avl_inv :: "BSTNode \<Rightarrow> bool" where
  "avl_inv t = (bst t \<and> heights_ok t \<and> balanced t)"

text \<open>
  \<open>lean key t\<close>: the root of \<open>t\<close> is one level deeper on the side that \<open>key\<close> belongs to.
  \<open>grows key t t'\<close> relates a subtree before and after an insertion of \<open>key\<close>: either
  the height is unchanged, or it went up by one and, unless \<open>t\<close> was empty, the new
  subtree leans towards \<open>key\<close>. This is what makes the key comparisons of
  \<^verbatim>\<open>insert_node\<close> select the right rotation.
\<close>

fun lean :: "c_int \<Rightarrow> BSTNode \<Rightarrow> bool" where
  "lean key NullNode = False"
| "lean key (Node k v h l r) =
     (key <s k \<and> ht l = ht r + 1 \<or> k <s key \<and> ht r = ht l + 1)"

definition grows :: "c_int \<Rightarrow> BSTNode \<Rightarrow> BSTNode \<Rightarrow> bool" where
  "grows key t t' = (ht t' = ht t \<or> ht t' = ht t + 1 \<and> (t = NullNode \<or> lean key t'))"

text \<open>The finite map a tree stands for; in a node the right subtree shadows the root,
  and the root the left subtree.\<close>

fun amap :: "BSTNode \<Rightarrow> c_int \<rightharpoonup> void_ptr" where
  "amap NullNode = Map.empty"
| "amap (Node k v h l r) = amap l ++ [k \<mapsto> v] ++ amap r"

text \<open>
  The update in place that the specification describes for an insertion at a key that is
  already present: the value of the node holding \<open>key\<close> is replaced, and nothing else
  changes. It is compared below with what \<^verbatim>\<open>insert_node\<close> computes.
\<close>

fun replace_value :: "c_int \<Rightarrow> void_ptr \<Rightarrow> BSTNode \<Rightarrow> BSTNode" where
  "replace_value key val NullNode = NullNode"
| "replace_value key val (Node k v h l r) =
     Node k (if k = key then val else v) h (replace_value key val l) (replace_value key val r)"

section \<open>Heights and balance\<close>

text \<open>
  With consistent height fields the C function \<^verbatim>\<open>height\<close> returns the height of the
  subtree. The three lemmas on \<open>insert_rebalance\<close> cover a root whose subtrees differ by
  at most one (no rotation), and a root that is two deeper on the left or on the right
  with that subtree leaning towards the inserted key (a single or a double rotation).
\<close>

lemma height_ht: "heights_ok t \<Longrightarrow> height t = ht t"
  by (induction t) auto

lemma balanced_imp_fields: "heights_ok t \<Longrightarrow> balanced t \<Longrightarrow> balanced_fields t"
  by (induction t) (auto simp: height_ht)

lemma ht_nonneg: "0 \<le> ht t"
  by (induction t) auto

lemma MAX_of_max: "MAX_of a b = max a b"
  by (simp add: MAX_of_def max_def)

lemma rebalance_even:
  assumes "heights_ok l" "heights_ok r" "\<bar>ht l - ht r\<bar> \<le> 1"
  shows "insert_rebalance key (Node rk rv rh l r) = Some (Node rk rv (1 + max (ht l) (ht r)) l r)"
proof -
  have "\<not> height r - height l < - 1" "\<not> 1 < height r - height l"
    using assms by (auto simp: height_ht)
  then show ?thesis
    using assms by (simp add: c_and_def Let_def MAX_of_max height_ht)
qed

lemma rebalance_left_heavy:
  assumes "heights_ok l" "balanced l" "heights_ok r" "balanced r"
    and "ht l = ht r + 2" "lean key l"
  shows "\<exists>t'. insert_rebalance key (Node rk rv rh l r) = Some t' \<and> heights_ok t' \<and> balanced t'
            \<and> ht t' = ht l"
proof (cases l)
  case NullNode
  with assms show ?thesis by simp
next
  case (Node lk lv lh ll lr)
  have b: "height r - height l < - 1" "\<not> 1 < height r - height l"
    using assms by (auto simp: height_ht)
  have hs: "height ll = ht ll" "height lr = ht lr" "height r = ht r"
    using assms Node by (simp_all add: height_ht)
  show ?thesis
  proof (cases "key <s lk")
    case True
    then have sh: "ht ll = ht lr + 1"
      using assms Node by (auto simp: signed.less_asym)
    have eq: "insert_rebalance key (Node rk rv rh l r) =
        Some (Node lk lv (1 + max (ht ll) (1 + max (ht lr) (ht r))) ll
                (Node rk rv (1 + max (ht lr) (ht r)) lr r))"
      using b True by (simp add: Node c_and_def Let_def MAX_of_max hs)
    have "ht lr = ht r"
      using assms Node sh by simp
    then show ?thesis
      unfolding eq using assms Node sh by (simp add: hs)
  next
    case False
    then have lt: "lk <s key" and sh: "ht lr = ht ll + 1"
      using assms Node by auto
    then obtain mk mv mh ml mr where lr: "lr = Node mk mv mh ml mr"
      using ht_nonneg [of ll] by (cases lr) auto
    have hm: "height ml = ht ml" "height mr = ht mr"
      using assms Node lr by (simp_all add: height_ht)
    have eq: "insert_rebalance key (Node rk rv rh l r) =
        Some (Node mk mv (1 + max (1 + max (ht ll) (ht ml)) (1 + max (ht mr) (ht r)))
                (Node lk lv (1 + max (ht ll) (ht ml)) ll ml)
                (Node rk rv (1 + max (ht mr) (ht r)) mr r))"
      using b False lt by (simp add: Node lr c_and_def Let_def MAX_of_max hs hm)
    have "ht ll = ht r" "max (ht ml) (ht mr) = ht r" "\<bar>ht ml - ht mr\<bar> \<le> 1"
      using assms Node sh lr by auto
    then show ?thesis
      unfolding eq using assms Node lr by (simp add: hs hm) (auto simp: max_def split: if_splits)
  qed
qed

lemma rebalance_right_heavy:
  assumes "heights_ok l" "balanced l" "heights_ok r" "balanced r"
    and "ht r = ht l + 2" "lean key r"
  shows "\<exists>t'. insert_rebalance key (Node rk rv rh l r) = Some t' \<and> heights_ok t' \<and> balanced t'
            \<and> ht t' = ht r"
proof (cases r)
  case NullNode
  with assms show ?thesis by simp
next
  case (Node ck cv ch rl rr)
  have b: "\<not> height r - height l < - 1" "1 < height r - height l"
    using assms by (auto simp: height_ht)
  have hs: "height rl = ht rl" "height rr = ht rr" "height l = ht l"
    using assms Node by (simp_all add: height_ht)
  show ?thesis
  proof (cases "ck <s key")
    case True
    then have sh: "ht rr = ht rl + 1"
      using assms Node by (auto simp: signed.less_asym)
    have eq: "insert_rebalance key (Node rk rv rh l r) =
        Some (Node ck cv (1 + max (1 + max (ht l) (ht rl)) (ht rr))
                (Node rk rv (1 + max (ht l) (ht rl)) l rl) rr)"
      using b True by (simp add: Node c_and_def Let_def MAX_of_max hs)
    have "ht rl = ht l"
      using assms Node sh by simp
    then show ?thesis
      unfolding eq using assms Node sh by (simp add: hs)
  next
    case False
    then have lt: "key <s ck" and sh: "ht rl = ht rr + 1"
      using assms Node by auto
    then obtain mk mv mh ml mr where rl: "rl = Node mk mv mh ml mr"
      using ht_nonneg [of rr] by (cases rl) auto
    have hm: "height ml = ht ml" "height mr = ht mr"
      using assms Node rl by (simp_all add: height_ht)
    have eq: "insert_rebalance key (Node rk rv rh l r) =
        Some (Node mk mv (1 + max (1 + max (ht l) (ht ml)) (1 + max (ht mr) (ht rr)))
                (Node rk rv (1 + max (ht l) (ht ml)) l ml)
                (Node ck cv (1 + max (ht mr) (ht rr)) mr rr))"
      using b False lt by (simp add: Node rl c_and_def Let_def MAX_of_max hs hm)
    have "ht rr = ht l" "max (ht ml) (ht mr) = ht l" "\<bar>ht ml - ht mr\<bar> \<le> 1"
      using assms Node sh rl by auto
    then show ?thesis
      unfolding eq using assms Node rl by (simp add: hs hm) (auto simp: max_def split: if_splits)
  qed
qed

lemma insert_node_shape:
  assumes "heights_ok t" "balanced t"
  shows "\<exists>t'. insert_node True key val t = Some t' \<and> heights_ok t' \<and> balanced t' \<and> grows key t t'"
  using assms
proof (induction t)
  case NullNode
  then show ?case by (simp add: grows_def)
next
  case (Node rk rv rh l r)
  have ok: "heights_ok l" "balanced l" "heights_ok r" "balanced r" "\<bar>ht l - ht r\<bar> \<le> 1"
    using Node.prems by simp_all
  consider (right) "rk <s key" | (left) "\<not> rk <s key" "key <s rk"
    | (same) "\<not> rk <s key" "\<not> key <s rk"
    by blast
  then show ?case
  proof cases
    case right
    from Node.IH(2) ok obtain r' where r': "insert_node True key val r = Some r'"
      "heights_ok r'" "balanced r'" "grows key r r'"
      by blast
    have step: "insert_node True key val (Node rk rv rh l r) = insert_rebalance key (Node rk rv rh l r')"
      using right r' by (simp del: insert_rebalance.simps)
    show ?thesis
    proof (cases "ht r' = ht l + 2")
      case True
      then have "lean key r'"
        using r' ok ht_nonneg [of l] by (auto simp: grows_def)
      from rebalance_right_heavy [OF ok(1,2) r'(2,3) True this, of rk rv rh]
      show ?thesis
        unfolding step using True ok r'(4) by (auto simp: grows_def)
    next
      case False
      then have bal: "\<bar>ht l - ht r'\<bar> \<le> 1"
        using r' ok by (auto simp: grows_def)
      show ?thesis
        unfolding step rebalance_even [OF ok(1) r'(2) bal]
        using right r' ok bal False by (auto simp: grows_def height_ht)
    qed
  next
    case left
    from Node.IH(1) ok obtain l' where l': "insert_node True key val l = Some l'"
      "heights_ok l'" "balanced l'" "grows key l l'"
      by blast
    have step: "insert_node True key val (Node rk rv rh l r) = insert_rebalance key (Node rk rv rh l' r)"
      using left l' by (simp del: insert_rebalance.simps)
    show ?thesis
    proof (cases "ht l' = ht r + 2")
      case True
      then have "lean key l'"
        using l' ok ht_nonneg [of r] by (auto simp: grows_def)
      from rebalance_left_heavy [OF l'(2,3) ok(3,4) True this, of rk rv rh]
      show ?thesis
        unfolding step using True ok l'(4) by (auto simp: grows_def)
    next
      case False
      then have bal: "\<bar>ht l' - ht r\<bar> \<le> 1"
        using l' ok by (auto simp: grows_def)
      show ?thesis
        unfolding step rebalance_even [OF l'(2) ok(3) bal]
        using left l' ok bal False by (auto simp: grows_def height_ht)
    qed
  next
    case same
    then have step: "insert_node True key val (Node rk rv rh l r) = insert_rebalance key (Node rk val rh l r)"
      by (simp del: insert_rebalance.simps)
    show ?thesis
      unfolding step rebalance_even [OF ok(1,3,5)] using ok by (simp add: grows_def height_ht)
  qed
qed

section \<open>Ordering and contents\<close>

text \<open>
  Rotations change neither the map a tree stands for nor its keys, and keep the ordering.
  On an ordered tree \<^verbatim>\<open>lookup\<close> reads that map, with \<open>NULL\<close> for an unbound key.
\<close>

lemma dom_amap: "dom (amap t) = keys t"
  by (induction t) auto

lemma set_inorder_keys: "set (inorder_keys t) = keys t"
  by (induction t) auto

lemma bst_sorted: "bst t \<Longrightarrow> sorted_wrt (<s) (inorder_keys t)"
  by (induction t) (auto simp: sorted_wrt_append set_inorder_keys intro: signed.less_trans)

lemma lookup_amap:
  "bst t \<Longrightarrow> lookup x t = (case amap t x of None \<Rightarrow> NULL | Some v \<Rightarrow> v)"
proof (induction t)
  case NullNode
  then show ?case by simp
next
  case (Node k v h l r)
  have nl: "k <s x \<or> k = x \<Longrightarrow> amap l x = None"
    using Node.prems dom_amap [of l] by (auto simp: domIff dest: signed.less_asym)
  have nr: "x <s k \<or> k = x \<Longrightarrow> amap r x = None"
    using Node.prems dom_amap [of r] by (auto simp: domIff dest: signed.less_asym)
  consider "k = x" | "x <s k" "k \<noteq> x" | "k <s x" "k \<noteq> x" "\<not> x <s k"
    using signed.less_linear [of x k] by (auto dest: signed.less_asym)
  then show ?case
  proof cases
    case 1
    then show ?thesis using nr by (simp add: map_add_def)
  next
    case 2
    then show ?thesis using nr Node by (simp add: map_add_def)
  next
    case 3
    then show ?thesis using nl Node by (simp add: map_add_def split: option.splits)
  qed
qed

lemma rotateRight_abs:
  "rotateRight t = Some t' \<Longrightarrow> amap t' = amap t \<and> keys t' = keys t \<and> (bst t \<longrightarrow> bst t')"
  by (induction t rule: rotateRight.induct) (auto, meson signed.less_trans)

lemma rotateLeft_abs:
  "rotateLeft t = Some t' \<Longrightarrow> amap t' = amap t \<and> keys t' = keys t \<and> (bst t \<longrightarrow> bst t')"
  by (induction t rule: rotateLeft.induct) (auto, meson signed.less_trans)

lemma insert_rebalance_cases:
  "insert_rebalance key (Node rk rv rh l r) =
     (let h' = 1 + MAX_of (height l) (height r); balance = height r - height l in
      if balance < - 1 then
        (case key_of l of
           None \<Rightarrow> None
         | Some lk \<Rightarrow>
             if key <s lk then rotateRight (Node rk rv h' l r)
             else if lk <s key then rotateLeft l \<bind> (\<lambda>l'. rotateRight (Node rk rv h' l' r))
             else Some (Node rk rv h' l r))
      else if 1 < balance then
        (case key_of r of
           None \<Rightarrow> None
         | Some ck \<Rightarrow>
             if ck <s key then rotateLeft (Node rk rv h' l r)
             else if key <s ck then rotateRight r \<bind> (\<lambda>r'. rotateLeft (Node rk rv h' l r'))
             else Some (Node rk rv h' l r))
      else Some (Node rk rv h' l r))"
proof -
  consider (L) "height r - height l < - 1" "\<not> 1 < height r - height l"
    | (R) "\<not> height r - height l < - 1" "1 < height r - height l"
    | (E) "\<not> height r - height l < - 1" "\<not> 1 < height r - height l"
    by linarith
  then show ?thesis
  proof cases
    case L
    then show ?thesis
      by (cases "key_of l") (simp_all add: c_and_def Let_def)
  next
    case R
    then show ?thesis
      by (cases "key_of r") (simp_all add: c_and_def Let_def)
  next
    case E
    then show ?thesis
      by (simp add: c_and_def Let_def)
  qed
qed

lemma insert_rebalance_abs:
  assumes "insert_rebalance key t = Some t'"
  shows "amap t' = amap t \<and> keys t' = keys t \<and> (bst t \<longrightarrow> bst t')"
proof (cases t)
  case NullNode
  with assms show ?thesis by simp
next
  case (Node rk rv rh l r)
  define h' where "h' = 1 + MAX_of (height l) (height r)"
  define P where "P u \<longleftrightarrow> amap u = amap t \<and> keys u = keys t \<and> (bst t \<longrightarrow> bst u)" for u
  have p0: "P (Node rk rv h' l r)"
    by (simp add: P_def Node)
  have p1: "P u" if "rotateRight (Node rk rv h' l r) = Some u" for u
    using rotateRight_abs [OF that] by (simp add: P_def Node)
  have p2: "P u" if "rotateLeft (Node rk rv h' l r) = Some u" for u
    using rotateLeft_abs [OF that] by (simp add: P_def Node)
  have p3: "P u" if "rotateLeft l = Some l'" "rotateRight (Node rk rv h' l' r) = Some u" for u l'
    using rotateLeft_abs [OF that(1)] rotateRight_abs [OF that(2)] by (auto simp: P_def Node)
  have p4: "P u" if "rotateRight r = Some r'" "rotateLeft (Node rk rv h' l r') = Some u" for u r'
    using rotateRight_abs [OF that(1)] rotateLeft_abs [OF that(2)] by (auto simp: P_def Node)
  have "insert_rebalance key (Node rk rv rh l r) = Some t'"
    using assms Node by simp
  then have "P t'"
    unfolding insert_rebalance_cases Let_def h'_def [symmetric]
    using p0 p1 p2 p3 p4
    by (auto simp del: rotateRight.simps rotateLeft.simps
          split: if_splits option.splits Option.bind_splits)
  then show ?thesis
    by (simp add: P_def)
qed

lemma insert_node_abs:
  "bst t \<Longrightarrow> insert_node ok key val t = Some t' \<Longrightarrow>
     bst t' \<and> keys t' = insert key (keys t) \<and> amap t' = (amap t)(key \<mapsto> val)"
proof (induction t arbitrary: t')
  case NullNode
  then show ?case by (auto split: if_splits)
next
  case (Node rk rv rh l r)
  consider (right) "rk <s key" | (left) "\<not> rk <s key" "key <s rk"
    | (same) "key = rk"
    using signed.less_linear [of key rk] by blast
  then show ?case
  proof cases
    case right
    with Node.prems obtain r' where r': "insert_node ok key val r = Some r'"
      and t': "insert_rebalance key (Node rk rv rh l r') = Some t'"
      by (auto simp del: insert_rebalance.simps split: Option.bind_splits)
    have "bst r"
      using Node.prems(1) by simp
    from Node.IH(2) [OF this r']
    have r'_abs: "bst r'" "keys r' = insert key (keys r)" "amap r' = (amap r)(key \<mapsto> val)"
      by blast+
    have "bst (Node rk rv rh l r')"
      using Node.prems(1) right r'_abs by simp
    with insert_rebalance_abs [OF t'] r'_abs show ?thesis
      by auto
  next
    case left
    with Node.prems obtain l' where l': "insert_node ok key val l = Some l'"
      and t': "insert_rebalance key (Node rk rv rh l' r) = Some t'"
      by (auto simp del: insert_rebalance.simps split: Option.bind_splits)
    have "bst l"
      using Node.prems(1) by simp
    from Node.IH(1) [OF this l']
    have l'_abs: "bst l'" "keys l' = insert key (keys l)" "amap l' = (amap l)(key \<mapsto> val)"
      by blast+
    have b: "bst (Node rk rv rh l' r)"
      using Node.prems(1) left l'_abs by simp
    have nr: "key \<notin> dom (amap r)" "key \<noteq> rk"
      using Node.prems(1) left dom_amap [of r] by (auto dest: signed.less_asym)
    have "amap l' ++ [rk \<mapsto> rv] ++ amap r = (amap l ++ [rk \<mapsto> rv] ++ amap r)(key \<mapsto> val)"
      using nr l'_abs(3) by (auto simp: map_add_def fun_eq_iff domIff split: option.splits)
    with insert_rebalance_abs [OF t'] l'_abs b show ?thesis
      by auto
  next
    case same
    with Node.prems have t': "insert_rebalance key (Node rk val rh l r) = Some t'"
      by (auto simp del: insert_rebalance.simps dest: signed.less_asym)
    have nr: "key \<notin> dom (amap r)"
      using Node.prems(1) same dom_amap [of r] by (auto dest: signed.less_asym)
    have "amap l ++ [rk \<mapsto> val] ++ amap r = (amap l ++ [rk \<mapsto> rv] ++ amap r)(key \<mapsto> val)"
      using nr same by (auto simp: map_add_def fun_eq_iff domIff split: option.splits)
    with insert_rebalance_abs [OF t'] Node.prems(1) same show ?thesis
      by auto
  qed
qed

section \<open>The invariant along operation sequences\<close>

lemma run_append: "run (xs @ ys) tree = run xs tree \<bind> run ys"
  by (induction xs arbitrary: tree) (auto split: Option.bind_split)

text \<open>
  An insertion that returns with a failing allocation returns the same tree as with a
  successful one, and it does not return when the key is absent.
\<close>

lemma insert_node_mono:
  "insert_node ok key val t = Some t' \<Longrightarrow> insert_node True key val t = Some t'"
proof (induction t arbitrary: t')
  case NullNode
  then show ?case by (simp split: if_splits)
next
  case (Node rk rv rh l r)
  then show ?case
    by (auto simp del: insert_rebalance.simps split: if_splits Option.bind_splits)
qed

lemma insert_node_no_memory:
  "key \<notin> keys t \<Longrightarrow> insert_node False key val t = None"
proof (induction t)
  case NullNode
  then show ?case by simp
next
  case (Node rk rv rh l r)
  then have "rk <s key \<or> key <s rk"
    using signed.less_linear [of key rk] by auto
  with Node show ?case
    by (auto simp del: insert_rebalance.simps)
qed

lemma insert_node_inv:
  assumes "avl_inv t"
  shows "\<exists>t'. insert_node True key val t = Some t' \<and> avl_inv t' \<and> keys t' = insert key (keys t)
            \<and> amap t' = (amap t)(key \<mapsto> val)"
proof -
  from assms have "heights_ok t" "balanced t" "bst t"
    by (simp_all add: avl_inv_def)
  from insert_node_shape [OF this(1,2), of key val] obtain t'
    where t': "insert_node True key val t = Some t'" "heights_ok t'" "balanced t'"
    by blast
  from insert_node_abs [OF \<open>bst t\<close> t'(1)] t' show ?thesis
    by (simp add: avl_inv_def)
qed

lemma insert_node_returns_inv:
  assumes "avl_inv t" "insert_node ok key val t = Some t'"
  shows "avl_inv t' \<and> keys t' = insert key (keys t) \<and> amap t' = (amap t)(key \<mapsto> val)"
  using insert_node_inv [OF assms(1), of key val] insert_node_mono [OF assms(2)] by auto

lemma apply_op_returns_inv:
  assumes "avl_inv (root t)" "apply_op x (Some t) = Some h"
  shows "\<exists>t'. h = Some t' \<and> avl_inv (root t')"
proof (cases x)
  case (Insert ok key val)
  with assms(2) obtain r where r: "insert_node ok key val (root t) = Some r"
    and h: "h = Some (t\<lparr>root := r\<rparr>)"
    by (auto simp: insert_avl_def split: Option.bind_splits)
  from insert_node_returns_inv [OF assms(1) r] h show ?thesis
    by simp
next
  case (Delete key)
  with assms show ?thesis by (auto simp: delete_avl_def)
next
  case (Lookup key)
  with assms show ?thesis by auto
qed

lemma apply_op_returns:
  assumes "avl_inv (root t)" "malloc_succeeds x"
  shows "\<exists>t'. apply_op x (Some t) = Some (Some t')"
proof (cases x)
  case (Insert ok key val)
  with assms(2) have "ok" by simp
  with insert_node_inv [OF assms(1), of key val] Insert show ?thesis
    by (auto simp: insert_avl_def)
next
  case (Delete key)
  then show ?thesis by (simp add: delete_avl_def)
next
  case (Lookup key)
  then show ?thesis by simp
qed

lemma run_returns_inv:
  "avl_inv (root t) \<Longrightarrow> run xs (Some t) = Some h \<Longrightarrow> \<exists>t'. h = Some t' \<and> avl_inv (root t')"
proof (induction xs arbitrary: t)
  case Nil
  then show ?case by auto
next
  case (Cons x xs)
  from Cons.prems(2) obtain u where u: "apply_op x (Some t) = Some u" "run xs u = Some h"
    by (auto split: Option.bind_splits)
  from apply_op_returns_inv [OF Cons.prems(1) u(1)] obtain t1
    where "u = Some t1" "avl_inv (root t1)"
    by blast
  with Cons.IH [of t1] u(2) show ?case
    by simp
qed

lemma run_returns:
  "avl_inv (root t) \<Longrightarrow> list_all malloc_succeeds xs \<Longrightarrow> \<exists>t'. run xs (Some t) = Some (Some t')"
proof (induction xs arbitrary: t)
  case Nil
  then show ?case by simp
next
  case (Cons x xs)
  from Cons.prems(2) have x: "malloc_succeeds x" and xs: "list_all malloc_succeeds xs"
    by simp_all
  from apply_op_returns [OF Cons.prems(1) x] obtain u
    where u: "apply_op x (Some t) = Some (Some u)"
    by blast
  from apply_op_returns_inv [OF Cons.prems(1) u] have "avl_inv (root u)"
    by simp
  from Cons.IH [OF this xs] u show ?case
    by simp
qed

lemma run_from_empty:
  "(list_all malloc_succeeds xs \<longrightarrow> (\<exists>t. run xs (createAVLTree True) = Some (Some t)))
   \<and> (\<forall>h. run xs (createAVLTree True) = Some h \<longrightarrow> (\<exists>t. h = Some t \<and> avl_inv (root t)))"
proof -
  have "avl_inv (root \<lparr>root = NullNode\<rparr>)"
    by (simp add: avl_inv_def)
  from run_returns [OF this, of xs] run_returns_inv [OF this, of xs] show ?thesis
    by (simp add: createAVLTree_def)
qed

lemma lookup_absent: "key \<notin> keys t \<Longrightarrow> lookup key t = NULL"
  by (induction t) auto

lemma replace_value_absent: "key \<notin> keys t \<Longrightarrow> replace_value key val t = t"
  by (induction t) auto

lemma replace_value_shape:
  "ht (replace_value key val t) = ht t" "height (replace_value key val t) = height t"
  "node_count (replace_value key val t) = node_count t"
  "keys (replace_value key val t) = keys t"
  "inorder_keys (replace_value key val t) = inorder_keys t"
  by (induction t) auto

lemma heights_ok_replace_value: "heights_ok t \<Longrightarrow> heights_ok (replace_value key val t)"
  by (induction t) (auto simp: replace_value_shape)

lemma insert_node_present:
  assumes "avl_inv t" "key \<in> keys t"
  shows "insert_node ok key val t = Some (replace_value key val t)"
  using assms
proof (induction t)
  case NullNode
  then show ?case by simp
next
  case (Node rk rv rh l r)
  have ok: "heights_ok l" "heights_ok r" "\<bar>ht l - ht r\<bar> \<le> 1"
    "rh = 1 + max (ht l) (ht r)" "avl_inv l" "avl_inv r"
    using Node.prems(1) by (auto simp: avl_inv_def height_ht)
  consider (right) "rk <s key" | (left) "\<not> rk <s key" "key <s rk" | (same) "key = rk"
    using signed.less_linear [of key rk] by blast
  then show ?case
  proof cases
    case right
    then have in_r: "key \<in> keys r" and out_l: "key \<notin> keys l" and ne: "rk \<noteq> key"
      using Node.prems by (auto simp: avl_inv_def dest: signed.less_asym)
    let ?r = "replace_value key val r"
    have step: "insert_node ok key val (Node rk rv rh l r) = insert_rebalance key (Node rk rv rh l ?r)"
      using right Node.IH(2) [OF ok(6) in_r] by (simp del: insert_rebalance.simps)
    have "\<bar>ht l - ht ?r\<bar> \<le> 1"
      using ok by (simp add: replace_value_shape)
    from rebalance_even [OF ok(1) heights_ok_replace_value [OF ok(2)] this]
    show ?thesis
      unfolding step using ok ne out_l by (simp add: replace_value_shape replace_value_absent)
  next
    case left
    then have in_l: "key \<in> keys l" and out_r: "key \<notin> keys r" and ne: "rk \<noteq> key"
      using Node.prems by (auto simp: avl_inv_def dest: signed.less_asym)
    let ?l = "replace_value key val l"
    have step: "insert_node ok key val (Node rk rv rh l r) = insert_rebalance key (Node rk rv rh ?l r)"
      using left Node.IH(1) [OF ok(5) in_l] by (simp del: insert_rebalance.simps)
    have "\<bar>ht ?l - ht r\<bar> \<le> 1"
      using ok by (simp add: replace_value_shape)
    from rebalance_even [OF heights_ok_replace_value [OF ok(1)] ok(2) this]
    show ?thesis
      unfolding step using ok ne out_r by (simp add: replace_value_shape replace_value_absent)
  next
    case same
    then have out: "key \<notin> keys l" "key \<notin> keys r"
      using Node.prems by (auto simp: avl_inv_def dest: signed.less_asym)
    have step: "insert_node ok key val (Node rk rv rh l r) = insert_rebalance key (Node rk val rh l r)"
      using same by (simp del: insert_rebalance.simps)
    show ?thesis
      unfolding step rebalance_even [OF ok(1,2,3)]
      using ok same out by (simp add: replace_value_absent)
  qed
qed

lemma insert_node_returns:
  assumes "avl_inv t" "ok \<or> key \<in> keys t"
  shows "\<exists>t'. insert_node ok key val t = Some t' \<and> avl_inv t' \<and> keys t' = insert key (keys t)
            \<and> amap t' = (amap t)(key \<mapsto> val)"
proof -
  have "\<exists>t'. insert_node ok key val t = Some t'"
  proof (cases ok)
    case True
    with insert_node_inv [OF assms(1), of key val] show ?thesis by auto
  next
    case False
    with assms(2) have "key \<in> keys t" by simp
    from insert_node_present [OF assms(1) this] show ?thesis by simp
  qed
  then obtain t' where "insert_node ok key val t = Some t'" ..
  with insert_node_returns_inv [OF assms(1) this] show ?thesis
    by simp
qed

section \<open>Properties of the public operations\<close>

text \<open>
  C1. Starting from the empty tree of \<^verbatim>\<open>createAVLTree\<close>, every sequence of insert, delete
  and lookup calls during which the allocations succeed runs without dereferencing a
  null pointer, and in the tree it leaves the heights of the left and right subtree of
  every node differ by at most one, both as heights of the subtrees themselves and as
  the height fields record them. More generally the same holds of the tree left by every
  sequence that returns, whatever the allocations did. The sequence is arbitrary, so this
  holds after each operation of a longer sequence.
\<close>

theorem balance_after_every_operation:
  "(list_all malloc_succeeds xs \<longrightarrow>
      (\<exists>t. run xs (createAVLTree True) = Some (Some t)
          \<and> balanced (root t) \<and> balanced_fields (root t)))
   \<and> (\<forall>h. run xs (createAVLTree True) = Some h \<longrightarrow>
          (\<exists>t. h = Some t \<and> balanced (root t) \<and> balanced_fields (root t)))"
  using run_from_empty [of xs] by (auto simp: avl_inv_def balanced_imp_fields)

theorem balance_after_every_operation_witness:
  "list_all malloc_succeeds
     [Insert True 1 (Ptr 1), Insert True 2 (Ptr 2), Insert True 3 NULL, Delete 2, Lookup 1,
      Insert True 4 NULL]
   \<and> (\<exists>t. run [Insert True 1 (Ptr 1), Insert True 2 (Ptr 2), Insert True 3 NULL, Delete 2,
              Lookup 1, Insert True 4 NULL]
         (createAVLTree True) = Some (Some t)
      \<and> balanced (root t) \<and> balanced_fields (root t))"
  using balance_after_every_operation
    [of "[Insert True 1 (Ptr 1), Insert True 2 (Ptr 2), Insert True 3 NULL, Delete 2, Lookup 1,
          Insert True 4 NULL]"]
  by simp

text \<open>
  C3. Every tree reached from the empty tree by public operations has its keys in strictly
  ascending order when traversed in order, and at every node the keys of the left subtree
  are below the node's key and those of the right subtree above it. A sequence during
  which the allocations succeed does reach a tree.
\<close>

theorem ordered_after_every_operation:
  "(list_all malloc_succeeds xs \<longrightarrow>
      (\<exists>t. run xs (createAVLTree True) = Some (Some t)
          \<and> sorted_wrt (<s) (inorder_keys (root t)) \<and> bst (root t)))
   \<and> (\<forall>h. run xs (createAVLTree True) = Some h \<longrightarrow>
          (\<exists>t. h = Some t \<and> sorted_wrt (<s) (inorder_keys (root t)) \<and> bst (root t)))"
  using run_from_empty [of xs] by (auto simp: avl_inv_def bst_sorted)

theorem ordered_after_every_operation_witness:
  "list_all malloc_succeeds [Insert True 3 NULL, Insert True 1 (Ptr 7), Delete 3, Insert True 2 NULL]
   \<and> (\<exists>t. run [Insert True 3 NULL, Insert True 1 (Ptr 7), Delete 3, Insert True 2 NULL]
            (createAVLTree True) = Some (Some t)
      \<and> sorted_wrt (<s) (inorder_keys (root t)) \<and> bst (root t))"
  using ordered_after_every_operation
    [of "[Insert True 3 NULL, Insert True 1 (Ptr 7), Delete 3, Insert True 2 NULL]"]
  by simp

text \<open>
  C4. After every public operation, the height field of every node is one more than the
  larger of the heights of its children as the C function \<^verbatim>\<open>height\<close> reports them,
  which is 0 for an absent child. A sequence during which the allocations succeed does
  return.
\<close>

theorem heights_after_every_operation:
  "(list_all malloc_succeeds xs \<longrightarrow>
      (\<exists>t. run xs (createAVLTree True) = Some (Some t) \<and> heights_ok (root t)))
   \<and> (\<forall>h. run xs (createAVLTree True) = Some h \<longrightarrow> (\<exists>t. h = Some t \<and> heights_ok (root t)))"
  using run_from_empty [of xs] by (auto simp: avl_inv_def)

theorem heights_after_every_operation_witness:
  "list_all malloc_succeeds [Insert True 5 NULL, Insert True 6 NULL, Insert True 7 NULL, Delete 6]
   \<and> (\<exists>t. run [Insert True 5 NULL, Insert True 6 NULL, Insert True 7 NULL, Delete 6]
            (createAVLTree True) = Some (Some t)
      \<and> heights_ok (root t))"
  using heights_after_every_operation
    [of "[Insert True 5 NULL, Insert True 6 NULL, Insert True 7 NULL, Delete 6]"]
  by simp

text \<open>
  C5. On a tree that satisfies the invariants of the data model, inserting a value at a
  key succeeds, and a lookup of that key afterwards returns the value. The insertion
  returns when the allocation of the new node succeeds, and also without it when the key
  is already present.
\<close>

theorem lookup_after_insert:
  assumes "avl_inv (root t)" "malloc_ok \<or> key \<in> keys (root t)"
  shows "\<exists>t'. insert_avl malloc_ok key val (Some t) = Some (True, Some t')
           \<and> lookup_avl key (Some t') = val"
proof -
  from insert_node_returns [OF assms, of val] obtain r
    where r: "insert_node malloc_ok key val (root t) = Some r" "avl_inv r"
      "amap r = (amap (root t))(key \<mapsto> val)"
    by blast
  then have "lookup key r = val"
    by (simp add: lookup_amap avl_inv_def)
  with r(1) show ?thesis
    by (simp add: insert_avl_def lookup_avl_def)
qed

theorem lookup_after_insert_witness:
  "avl_inv (root \<lparr>root = Node 5 (Ptr 1) 2 (Node 3 NULL 1 NullNode NullNode) NullNode\<rparr>)
   \<and> (True \<or> 4 \<in> keys (root \<lparr>root = Node 5 (Ptr 1) 2 (Node 3 NULL 1 NullNode NullNode) NullNode\<rparr>))
   \<and> (\<exists>t'. insert_avl True 4 (Ptr 9)
              (Some \<lparr>root = Node 5 (Ptr 1) 2 (Node 3 NULL 1 NullNode NullNode) NullNode\<rparr>)
            = Some (True, Some t')
          \<and> lookup_avl 4 (Some t') = Ptr 9)"
  using lookup_after_insert
    [of "\<lparr>root = Node 5 (Ptr 1) 2 (Node 3 NULL 1 NullNode NullNode) NullNode\<rparr>" True 4 "Ptr 9"]
  by (simp add: avl_inv_def word_sless_alt)

text \<open>
  C2. The claim asks \<^verbatim>\<open>delete_avl\<close> to return the stored value and to remove the key.
  The function body is \<^verbatim>\<open>return NULL; //TODO\<close>: on the tree built by inserting key 5 with
  value \<open>Ptr 1\<close> into the empty tree, deleting key 5 returns \<open>NULL\<close>, leaves the tree as
  it was, and a lookup of 5 afterwards still returns \<open>Ptr 1\<close>.
\<close>

theorem delete_avl_leaves_key:
  "insert_avl True 5 (Ptr 1) (createAVLTree True)
     = Some (True, Some \<lparr>root = Node 5 (Ptr 1) 1 NullNode NullNode\<rparr>)
   \<and> delete_avl 5 (Some \<lparr>root = Node 5 (Ptr 1) 1 NullNode NullNode\<rparr>)
     = (NULL, Some \<lparr>root = Node 5 (Ptr 1) 1 NullNode NullNode\<rparr>)
   \<and> lookup_avl 5 (snd (delete_avl 5 (Some \<lparr>root = Node 5 (Ptr 1) 1 NullNode NullNode\<rparr>)))
     = Ptr 1"
  by (simp add: insert_avl_def createAVLTree_def delete_avl_def lookup_avl_def)

text \<open>
  C6. On a tree that satisfies the invariants and already holds the key, an insertion
  reports success and returns the tree with the value at that key replaced and nothing
  else changed: the same nodes, keys, height fields and shape. The number of nodes is
  unchanged and a lookup of the key returns the new value. No node is allocated, so
  this does not depend on what \<^verbatim>\<open>malloc\<close> would return.
\<close>

theorem insert_present_key_replaces_value:
  assumes "avl_inv (root t)" "key \<in> keys (root t)"
  shows "\<exists>t'. insert_avl malloc_ok key val (Some t) = Some (True, Some t')
           \<and> root t' = replace_value key val (root t)
           \<and> node_count (root t') = node_count (root t)
           \<and> lookup_avl key (Some t') = val"
proof -
  have r: "insert_node malloc_ok key val (root t) = Some (replace_value key val (root t))"
    by (rule insert_node_present [OF assms])
  from insert_node_returns_inv [OF assms(1) r]
  have "lookup key (replace_value key val (root t)) = val"
    by (simp add: lookup_amap avl_inv_def)
  then show ?thesis
    using r by (simp add: insert_avl_def lookup_avl_def replace_value_shape)
qed

theorem insert_present_key_replaces_value_witness:
  "avl_inv (root \<lparr>root = Node 5 (Ptr 1) 2 (Node 3 NULL 1 NullNode NullNode) NullNode\<rparr>)
   \<and> 3 \<in> keys (root \<lparr>root = Node 5 (Ptr 1) 2 (Node 3 NULL 1 NullNode NullNode) NullNode\<rparr>)
   \<and> (\<exists>t'. insert_avl False 3 (Ptr 8)
              (Some \<lparr>root = Node 5 (Ptr 1) 2 (Node 3 NULL 1 NullNode NullNode) NullNode\<rparr>)
            = Some (True, Some t')
          \<and> root t' = Node 5 (Ptr 1) 2 (Node 3 (Ptr 8) 1 NullNode NullNode) NullNode
          \<and> node_count (root t')
              = node_count (Node 5 (Ptr 1) 2 (Node 3 NULL 1 NullNode NullNode) NullNode)
          \<and> lookup_avl 3 (Some t') = Ptr 8)"
  using insert_present_key_replaces_value
    [of "\<lparr>root = Node 5 (Ptr 1) 2 (Node 3 NULL 1 NullNode NullNode) NullNode\<rparr>" 3 False "Ptr 8"]
  by (simp add: avl_inv_def word_sless_alt)

text \<open>
  C7. Inserting the keys 30, 10, 20 in this order into the empty tree gives the tree with
  root key 20, left child 10 and right child 30. At the third insertion the root with key
  30 is left-heavy by two and the key 20 lies above the key 10 of its left child, so the
  left-right test of \<^verbatim>\<open>insert_node\<close> is the one that fires: the left child is rotated
  left and then the root is rotated right.
\<close>

theorem insert_30_10_20:
  "run [Insert True 30 v1, Insert True 10 v2, Insert True 20 v3] (createAVLTree True)
     = Some (Some \<lparr>root = Node 20 v3 2 (Node 10 v2 1 NullNode NullNode)
                                        (Node 30 v1 1 NullNode NullNode)\<rparr>)
   \<and> run [Insert True 30 v1, Insert True 10 v2] (createAVLTree True)
     = Some (Some \<lparr>root = Node 30 v1 2 (Node 10 v2 1 NullNode NullNode) NullNode\<rparr>)
   \<and> insert_node True 20 v3 (Node 10 v2 1 NullNode NullNode)
     = Some (Node 10 v2 2 NullNode (Node 20 v3 1 NullNode NullNode))
   \<and> height NullNode - height (Node 10 v2 2 NullNode (Node 20 v3 1 NullNode NullNode)) < - 1
   \<and> \<not> (20 :: c_int) <s 10 \<and> (10 :: c_int) <s 20
   \<and> insert_rebalance 20 (Node 30 v1 2 (Node 10 v2 2 NullNode (Node 20 v3 1 NullNode NullNode))
        NullNode)
     = Some (Node 20 v3 2 (Node 10 v2 1 NullNode NullNode) (Node 30 v1 1 NullNode NullNode))
   \<and> rotateLeft (Node 10 v2 2 NullNode (Node 20 v3 1 NullNode NullNode))
     = Some (Node 20 v3 2 (Node 10 v2 1 NullNode NullNode) NullNode)
   \<and> rotateRight (Node 30 v1 3 (Node 20 v3 2 (Node 10 v2 1 NullNode NullNode) NullNode) NullNode)
     = Some (Node 20 v3 2 (Node 10 v2 1 NullNode NullNode) (Node 30 v1 1 NullNode NullNode))"
  by (simp add: createAVLTree_def insert_avl_def word_sless_alt c_and_def MAX_of_def)




text \<open>
  C9. On a tree that satisfies the invariants, an insertion at a key leaves the result of
  a lookup of every other key as it was. The insertion returns when the allocation of the
  new node succeeds, and also without it when the key is already present.
\<close>

theorem insert_frames_other_keys:
  assumes "avl_inv (root t)" "key' \<noteq> key" "malloc_ok \<or> key \<in> keys (root t)"
  shows "\<exists>t'. insert_avl malloc_ok key val (Some t) = Some (True, Some t')
           \<and> lookup_avl key' (Some t') = lookup_avl key' (Some t)"
proof -
  from insert_node_returns [OF assms(1,3), of val] obtain r
    where r: "insert_node malloc_ok key val (root t) = Some r" "avl_inv r"
      "amap r = (amap (root t))(key \<mapsto> val)"
    by blast
  then have "lookup key' r = lookup key' (root t)"
    using assms by (simp add: lookup_amap avl_inv_def)
  with r(1) show ?thesis
    by (simp add: insert_avl_def lookup_avl_def)
qed

theorem insert_frames_other_keys_witness:
  "avl_inv (root \<lparr>root = Node 5 (Ptr 1) 2 (Node 3 (Ptr 4) 1 NullNode NullNode) NullNode\<rparr>)
   \<and> (3 :: c_int) \<noteq> 4
   \<and> (True \<or> 4 \<in> keys (root \<lparr>root = Node 5 (Ptr 1) 2 (Node 3 (Ptr 4) 1 NullNode NullNode) NullNode\<rparr>))
   \<and> (\<exists>t'. insert_avl True 4 (Ptr 9)
              (Some \<lparr>root = Node 5 (Ptr 1) 2 (Node 3 (Ptr 4) 1 NullNode NullNode) NullNode\<rparr>)
            = Some (True, Some t')
          \<and> lookup_avl 3 (Some t') = Ptr 4)"
  using insert_frames_other_keys
    [of "\<lparr>root = Node 5 (Ptr 1) 2 (Node 3 (Ptr 4) 1 NullNode NullNode) NullNode\<rparr>" 3 4 True "Ptr 9"]
  by (simp add: avl_inv_def word_sless_alt lookup_avl_def)

text \<open>
  C10. A lookup on a null handle returns \<open>NULL\<close>, and so does a lookup of a key that a
  valid handle's tree does not hold: the two results are the same.
\<close>

theorem lookup_null_handle_like_missing_key:
  assumes "key \<notin> keys (root t)"
  shows "lookup_avl key None = NULL \<and> lookup_avl key (Some t) = lookup_avl key None"
  using assms by (simp add: lookup_avl_def lookup_absent)

theorem lookup_null_handle_like_missing_key_witness:
  "4 \<notin> keys (root \<lparr>root = Node 5 (Ptr 1) 2 (Node 3 (Ptr 4) 1 NullNode NullNode) NullNode\<rparr>)
   \<and> lookup_avl 4 None = NULL
   \<and> lookup_avl 4 (Some \<lparr>root = Node 5 (Ptr 1) 2 (Node 3 (Ptr 4) 1 NullNode NullNode) NullNode\<rparr>)
       = lookup_avl 4 None"
  using lookup_null_handle_like_missing_key
    [of 4 "\<lparr>root = Node 5 (Ptr 1) 2 (Node 3 (Ptr 4) 1 NullNode NullNode) NullNode\<rparr>"]
  by simp

end
